theory Spec2Isabelle
  imports Complex_Main "HOL-Library.Word" "HOL-Library.Log_Nat"
begin

section \<open>The image browser: data model\<close>

text \<open>
  The browser (\<^verbatim>\<open>browser.cpp\<close>) lists every file below a directory (\<^verbatim>\<open>file_list\<close>),
  then walks the list with an index \<^verbatim>\<open>i\<close>: it reads the file at \<^verbatim>\<open>i\<close>, erases entries
  that hold no image, scales the image to the viewport, shows it and reacts to one key.

  A path is a \<^verbatim>\<open>std::string\<close>. Of a \<^verbatim>\<open>cv::Mat\<close> only the two dimensions matter here;
  \<^verbatim>\<open>cv::imread\<close> returns the matrix with no rows and no columns for a file it cannot
  decode, and \<^verbatim>\<open>Mat::empty()\<close> is true of a matrix with no elements. The decoder is a
  parameter \<open>imread\<close> of the model.
\<close>

type_synonym path = string

record mat =
  rows :: int
  cols :: int

definition mat_empty :: "mat \<Rightarrow> bool" where
  "mat_empty img \<longleftrightarrow> rows img = 0 \<or> cols img = 0"

text \<open>\<^verbatim>\<open>v.erase(v.begin() + b, v.begin() + e)\<close>: the elements at \<open>b, \<dots>, e - 1\<close> go,
  the later ones move down.\<close>

definition erase :: "'a list \<Rightarrow> nat \<Rightarrow> nat \<Rightarrow> 'a list" where
  "erase v b e = take b v @ drop e v"

section \<open>The file enumerator\<close>

text \<open>
  The file system below the root, as \<^verbatim>\<open>file_list\<close> sees it. A \<open>Regular\<close> node is any entry
  for which \<^verbatim>\<open>is_directory\<close> (\<^verbatim>\<open>lstat\<close> and \<^verbatim>\<open>S_ISDIR\<close>) answers false. A \<open>Directory\<close>
  holds the entries \<^verbatim>\<open>readdir\<close> reports, in the order it reports them, the entries
  \<^verbatim>\<open>.\<close> and \<^verbatim>\<open>..\<close> among them (the node beside those two names is never looked at). A
  \<open>Locked\<close> node is a directory that \<^verbatim>\<open>opendir\<close> cannot open, whatever descriptors are
  free (for want of permission, say). (This is the branch
  compiled on Linux and macOS; on Windows the test is \<^verbatim>\<open>ent->d_type == DT_DIR\<close>.)
\<close>

datatype node =
    Regular
  | Directory "(string \<times> node) list"
  | Locked

fun is_directory :: "node \<Rightarrow> bool" where
  "is_directory Regular = False"
| "is_directory (Directory ents) = True"
| "is_directory Locked = True"

text \<open>
  \<^verbatim>\<open>file_list(dirname, files)\<close>. The exception thrown when \<^verbatim>\<open>opendir\<close> fails is the
  result \<open>Inl\<close> with the message; \<open>read_entries\<close> is the \<^verbatim>\<open>while ((ent = readdir(dir)))\<close>
  loop over the entries still to come.

  Every \<^verbatim>\<open>opendir\<close> that succeeds takes a file descriptor, and \<^verbatim>\<open>file_list\<close> never calls
  \<^verbatim>\<open>closedir\<close>: the descriptor stays taken when the call returns. \<open>fds\<close> is the number of
  descriptors the process may still open; \<^verbatim>\<open>opendir\<close> fails when none is left, and the
  number left is handed on with the list.
\<close>

fun file_list :: "string \<Rightarrow> node \<Rightarrow> path list \<Rightarrow> nat \<Rightarrow> string + path list \<times> nat"
  and read_entries ::
    "string \<Rightarrow> (string \<times> node) list \<Rightarrow> path list \<Rightarrow> nat \<Rightarrow> string + path list \<times> nat"
where
  "file_list dirname (Directory ents) files fds =
     (if fds = 0 then Inl (''Unknown directory '' @ dirname)
      else read_entries dirname ents files (fds - 1))"
| "file_list dirname Regular files fds = Inl (''Unknown directory '' @ dirname)"
| "file_list dirname Locked files fds = Inl (''Unknown directory '' @ dirname)"
| "read_entries dirname [] files fds = Inr (files, fds)"
| "read_entries dirname ((d_name, n) # ents) files fds =
     (if d_name = ''.'' \<or> d_name = ''..'' then read_entries dirname ents files fds
      else
        (let file_name = dirname @ ''/'' @ d_name in
         if is_directory n then
           (case file_list file_name n files fds of
              Inl msg \<Rightarrow> Inl msg
            | Inr (files', fds') \<Rightarrow> read_entries dirname ents files' fds')
         else read_entries dirname ents (files @ [file_name]) fds))"

section \<open>The enumerator's specification\<close>





fun directories :: "node \<Rightarrow> nat"
  and directories_entries :: "(string \<times> node) list \<Rightarrow> nat"
where
  "directories Regular = 0"
| "directories (Directory ents) = 1 + directories_entries ents"
| "directories Locked = 0"
| "directories_entries [] = 0"
| "directories_entries ((d_name, n) # ents) =
     (if d_name = ''.'' \<or> d_name = ''..'' then 0 else directories n) + directories_entries ents"

definition path_of :: "string \<Rightarrow> string list \<Rightarrow> path" where
  "path_of dirname names = dirname @ concat (map (\<lambda>d_name. ''/'' @ d_name) names)"

section \<open>The catalog pruner\<close>

text \<open>
  Lines 139 to 149 of \<^verbatim>\<open>main\<close>: read the file at \<open>i\<close>; while the image is empty, erase
  the entry at \<open>i\<close>, return from \<^verbatim>\<open>main\<close> if \<open>i\<close> is now the size of the vector, and read
  the entry that moved into place. The third component of a result lists the paths given
  to \<open>imread\<close>, in order (it is not a variable of the program). An index outside the
  vector is undefined behaviour in C++; it is the result \<open>Out_Of_Range\<close>.
\<close>

datatype pruned =
    Decoded "path list" mat "path list"
  | End_Of_Catalog "path list" "path list"
  | Out_Of_Range

function while_empty ::
  "(path \<Rightarrow> mat) \<Rightarrow> nat \<Rightarrow> path list \<Rightarrow> mat \<Rightarrow> path list \<Rightarrow> pruned"
where
  "while_empty imread i files img tried =
     (if mat_empty img then
        (if i < length files then
           (let files' = erase files i (i + 1) in
            if i = length files' then End_Of_Catalog files' tried
            else while_empty imread i files' (imread (files' ! i)) (tried @ [files' ! i]))
         else Out_Of_Range)
      else Decoded files img tried)"
  by pat_completeness auto
termination
  by (relation "measure (\<lambda>(imread, i, files, img, tried). length files)")
     (auto simp: erase_def)

declare while_empty.simps [simp del]

definition ensure_valid_at :: "(path \<Rightarrow> mat) \<Rightarrow> path list \<Rightarrow> nat \<Rightarrow> pruned" where
  "ensure_valid_at imread files i =
     (if i < length files
      then while_empty imread i files (imread (files ! i)) [files ! i]
      else Out_Of_Range)"

section \<open>The scaler and the display\<close>

text \<open>
  \<^verbatim>\<open>display\<close> computes in \<^verbatim>\<open>float\<close>. A \<^verbatim>\<open>float\<close> is modelled by the rational it stands
  for, and every operation rounds its exact result to the nearest value with a 24 bit
  significand, ties to even (IEEE 754 binary32, each operation rounded to \<^verbatim>\<open>float\<close>).
  The operands of \<^verbatim>\<open>display\<close> come from 32 bit integers, so quotients and products stay
  between \<open>2 powi (-31)\<close> and \<open>2 powi 62\<close> in size, far from overflow and from subnormal numbers.

  \<open>ilog2 x\<close> is the exponent \<open>e\<close> with \<open>2 powi e \<le> x < 2 powi (e + 1)\<close>, for positive \<open>x\<close>.
\<close>

definition ilog2 :: "rat \<Rightarrow> int" where
  "ilog2 x = (if 1 \<le> x then bitlen \<lfloor>x\<rfloor> - 1 else - bitlen (\<lceil>1 / x\<rceil> - 1))"

definition round_even :: "rat \<Rightarrow> int" where
  "round_even y =
     (let f = \<lfloor>y\<rfloor>; d = y - of_int f
      in if d < 1 / 2 then f
         else if 1 / 2 < d then f + 1
         else if even f then f else f + 1)"

definition fl :: "rat \<Rightarrow> rat" where
  "fl x =
     (if x = 0 then 0
      else (let u = 2 powi (ilog2 \<bar>x\<bar> - 23)
            in sgn x * of_int (round_even (\<bar>x\<bar> / u)) * u))"

text \<open>Conversion of an \<^verbatim>\<open>int\<close> to \<^verbatim>\<open>float\<close>, division, multiplication, and
  \<^verbatim>\<open>static_cast<int>\<close> of a \<^verbatim>\<open>float\<close>, which drops the fraction.\<close>

definition i2f :: "int \<Rightarrow> rat" where
  "i2f n = fl (of_int n)"

definition fdiv :: "rat \<Rightarrow> rat \<Rightarrow> rat" where
  "fdiv a b = fl (a / b)"

definition fmul :: "rat \<Rightarrow> rat \<Rightarrow> rat" where
  "fmul a b = fl (a * b)"

definition f2i :: "rat \<Rightarrow> int" where
  "f2i x = (if 0 \<le> x then \<lfloor>x\<rfloor> else \<lceil>x\<rceil>)"

text \<open>
  \<^verbatim>\<open>display(img)\<close> with the globals \<^verbatim>\<open>maxrows\<close> and \<^verbatim>\<open>maxcols\<close>. \<open>scaling_ratio\<close> is the
  value of \<^verbatim>\<open>ratio\<close> after lines 48 to 50. \<open>display\<close> returns the matrix created by
  \<^verbatim>\<open>Mat::zeros\<close> (the frame shown; \<^verbatim>\<open>warpAffine\<close> is taken to fill its pixels and to
  leave its size as created), and the key. \<open>code\<close> is the \<^verbatim>\<open>int\<close> that \<^verbatim>\<open>cv::waitKey()\<close> returns; the
  assignment to \<^verbatim>\<open>uchar response\<close> keeps its low 8 bits. \<^verbatim>\<open>main\<close> calls \<^verbatim>\<open>display\<close> on
  images that are not empty only.
\<close>

type_synonym uchar = "8 word"

definition scaling_ratio :: "int \<Rightarrow> int \<Rightarrow> mat \<Rightarrow> rat" where
  "scaling_ratio maxrows maxcols img =
     (let ratio1 = fdiv (i2f maxcols) (i2f (cols img));
          ratio2 = fdiv (i2f maxrows) (i2f (rows img))
      in if ratio1 < ratio2 then ratio1 else ratio2)"

definition display :: "int \<Rightarrow> int \<Rightarrow> mat \<Rightarrow> int \<Rightarrow> mat \<times> uchar" where
  "display maxrows maxcols img code =
     (let ratio = scaling_ratio maxrows maxcols img;
          image = \<lparr>rows = f2i (fmul ratio (i2f (rows img))),
                   cols = f2i (fmul ratio (i2f (cols img)))\<rparr>;
          response = (word_of_int code :: uchar)
      in (image, response))"

text \<open>
  The scaler as the specification words it: the ratio is the smaller of the two real
  quotients, and each output dimension is the product with the ratio, rounded to the
  nearest integer.
\<close>

definition spec_ratio :: "int \<Rightarrow> int \<Rightarrow> mat \<Rightarrow> rat" where
  "spec_ratio maxrows maxcols img =
     min (of_int maxcols / of_int (cols img)) (of_int maxrows / of_int (rows img))"

definition spec_fit :: "int \<Rightarrow> int \<Rightarrow> mat \<Rightarrow> mat" where
  "spec_fit maxrows maxcols img =
     \<lparr>rows = round (of_int (rows img) * spec_ratio maxrows maxcols img),
      cols = round (of_int (cols img) * spec_ratio maxrows maxcols img)\<rparr>"

section \<open>The navigation loop\<close>

text \<open>
  The reaction to the key, lines 159 to 176: \<^verbatim>\<open>break\<close>, or the end of the loop body
  (by \<^verbatim>\<open>continue\<close> or by reaching its last line) with the value \<open>i\<close> then has. The
  comparison \<^verbatim>\<open>response == 'q'\<close> promotes both sides to \<^verbatim>\<open>int\<close>.
\<close>

datatype jump = Break | Continue int

definition react :: "uchar \<Rightarrow> int \<Rightarrow> jump" where
  "react response i =
     (if uint response = of_char CHR ''q'' then Break
      else if uint response = of_char CHR ''n'' \<or> uint response = of_char CHR '' ''
        then Continue i
      else if uint response = of_char CHR ''p''
        then (if i = 0 then Continue (i - 1) else Continue (i - 2))
      else Continue i)"

text \<open>
  How \<^verbatim>\<open>main\<close> ends: \<open>Usage\<close> is \<^verbatim>\<open>return (1)\<close> after the usage message, \<open>Caught\<close> the
  handler of the string exception (\<^verbatim>\<open>return (1)\<close>), \<open>Assertion_Failed\<close> a failed
  \<^verbatim>\<open>assert\<close> (the message on the error stream, then \<^verbatim>\<open>abort\<close>), \<open>Pruned_Out\<close> the
  \<^verbatim>\<open>return (0)\<close> inside the \<^verbatim>\<open>while\<close> loop, \<open>Quit\<close> the \<^verbatim>\<open>break\<close>, \<open>Exhausted\<close> the loop
  test failing (both followed by \<^verbatim>\<open>destroyAllWindows\<close> and \<^verbatim>\<open>return (0)\<close>), and \<open>Fault\<close>
  an access outside the vector.

  The loop is cut at \<^verbatim>\<open>cv::waitKey()\<close>: in \<open>Viewing files i img\<close> the frame of \<open>img\<close>, read
  from \<open>files ! i\<close>, is on the screen and the program waits for a key.
\<close>

datatype exit = Usage | Caught string | Assertion_Failed | Pruned_Out | Quit | Exhausted | Fault

fun exit_code :: "exit \<Rightarrow> int option" where
  "exit_code Usage = Some 1"
| "exit_code (Caught msg) = Some 1"
| "exit_code Assertion_Failed = None"
| "exit_code Pruned_Out = Some 0"
| "exit_code Quit = Some 0"
| "exit_code Exhausted = Some 0"
| "exit_code Fault = None"

datatype state = Viewing "path list" int mat | Terminated exit

text \<open>
  \<open>enter\<close>: from the loop test \<^verbatim>\<open>i < files.size()\<close> to the call of \<^verbatim>\<open>display\<close>. The test
  converts \<open>i\<close> to \<^verbatim>\<open>size_t\<close>; a negative \<open>i\<close> becomes a number larger than the size of any
  vector, so the test fails for it.
\<close>

definition enter :: "(path \<Rightarrow> mat) \<Rightarrow> path list \<Rightarrow> int \<Rightarrow> state" where
  "enter imread files i =
     (if 0 \<le> i \<and> i < int (length files) then
        (case ensure_valid_at imread files (nat i) of
           Decoded files' img tried \<Rightarrow>
             if mat_empty img then Terminated Assertion_Failed else Viewing files' i img
         | End_Of_Catalog files' tried \<Rightarrow> Terminated Pruned_Out
         | Out_Of_Range \<Rightarrow> Terminated Fault)
      else Terminated Exhausted)"

text \<open>\<open>press\<close>: \<^verbatim>\<open>waitKey\<close> returns \<open>code\<close>; the rest of the loop body, the \<^verbatim>\<open>i++\<close> of the
  \<^verbatim>\<open>for\<close> statement, and the next iteration up to its \<^verbatim>\<open>display\<close>.\<close>

definition press :: "int \<Rightarrow> int \<Rightarrow> (path \<Rightarrow> mat) \<Rightarrow> int \<Rightarrow> state \<Rightarrow> state" where
  "press maxrows maxcols imread code s =
     (case s of
        Terminated e \<Rightarrow> Terminated e
      | Viewing files i img \<Rightarrow>
          (case react (snd (display maxrows maxcols img code)) i of
             Break \<Rightarrow> Terminated Quit
           | Continue j \<Rightarrow> enter imread files (j + 1)))"

fun for_loop :: "int \<Rightarrow> int \<Rightarrow> (path \<Rightarrow> mat) \<Rightarrow> state \<Rightarrow> int list \<Rightarrow> state" where
  "for_loop maxrows maxcols imread s [] = s"
| "for_loop maxrows maxcols imread s (code # codes) =
     for_loop maxrows maxcols imread (press maxrows maxcols imread code s) codes"

text \<open>
  \<^verbatim>\<open>main\<close>, after the command line is parsed: \<open>help\<close> and \<open>dir\<close> are the parsed flag and
  directory, \<open>maxrows\<close> and \<open>maxcols\<close> the parsed bound (the option table \<^verbatim>\<open>keys\<close> of
  \<^verbatim>\<open>browser.hpp\<close> with their defaults is not among the sources), \<open>tree\<close> the directory
  tree found at \<open>dir\<close>, \<open>fds\<close> the number of file descriptors the process may still open,
  \<open>codes\<close> the keys the user presses. The result is the state when
  the keys are used up. The \<^verbatim>\<open>assert\<close> macro is taken as the source has it, active (no
  \<^verbatim>\<open>NDEBUG\<close>); the calls into OpenCV other than \<^verbatim>\<open>imread\<close> and \<^verbatim>\<open>waitKey\<close> are taken to
  return normally.
\<close>

definition main ::
  "bool \<Rightarrow> string \<Rightarrow> node \<Rightarrow> nat \<Rightarrow> int \<Rightarrow> int \<Rightarrow> (path \<Rightarrow> mat) \<Rightarrow> int list \<Rightarrow> state"
where
  "main help dir tree fds maxrows maxcols imread codes =
     (if help \<or> dir = [] then Terminated Usage
      else
        (case file_list dir tree [] fds of
           Inl msg \<Rightarrow> Terminated (Caught msg)
         | Inr (files, fds') \<Rightarrow>
             if files = [] then Terminated Assertion_Failed
             else for_loop maxrows maxcols imread (enter imread files 0) codes))"

text \<open>
  The invariant of the loop at \<^verbatim>\<open>waitKey\<close>: the index is inside the vector, the image on
  the screen was read from the entry at the index, and every entry up to the index holds
  an image (the loop came past each of them, or erased what stood there).
\<close>

definition viewing_ok :: "(path \<Rightarrow> mat) \<Rightarrow> state \<Rightarrow> bool" where
  "viewing_ok imread s =
     (case s of
        Terminated e \<Rightarrow> True
      | Viewing files k img \<Rightarrow>
          0 \<le> k \<and> nat k < length files \<and> img = imread (files ! nat k) \<and>
          list_all (\<lambda>p. \<not> mat_empty (imread p)) (take (nat k + 1) files))"

section \<open>Sample inputs\<close>

text \<open>A decoder for the examples: files named \<^verbatim>\<open>*.txt\<close> hold no image, every other file
  holds an image of 50 rows and 50 columns.\<close>

definition sample_imread :: "path \<Rightarrow> mat" where
  "sample_imread p =
     (if drop (length p - 4) p = ''.txt'' then \<lparr>rows = 0, cols = 0\<rparr>
      else \<lparr>rows = 50, cols = 50\<rparr>)"

text \<open>A directory with two pictures, and a directory with no entry but \<^verbatim>\<open>.\<close> and \<^verbatim>\<open>..\<close>.\<close>

definition sample_tree :: node where
  "sample_tree =
     Directory [(''.'', Locked), (''..'', Locked), (''a.jpg'', Regular), (''b.jpg'', Regular)]"

definition empty_tree :: node where
  "empty_tree = Directory [(''.'', Locked), (''..'', Locked)]"



definition chain_tree :: node where
  "chain_tree =
     Directory [(''a.jpg'', Regular),
                (''one'', Directory [(''b.jpg'', Regular),
                                     (''two'', Directory [(''c.jpg'', Regular)])])]"


section \<open>The pruner: what it erases and when it stops\<close>

lemma erase_at:
  "length pre = i \<Longrightarrow> erase (pre @ x # post) i (Suc i) = pre @ post"
  by (simp add: erase_def)

lemma while_empty_decodes:
  assumes "length pre = i"
    and "list_all (\<lambda>p. mat_empty (imread p)) bad"
    and "\<not> mat_empty (imread good)"
  shows "while_empty imread i (pre @ bad @ good # rest) (imread (hd (bad @ [good]))) tried
         = Decoded (pre @ good # rest) (imread good) (tried @ tl (bad @ [good]))"
  using assms(2)
proof (induction bad arbitrary: tried)
  case Nil
  show ?case
    using assms(3) by (subst while_empty.simps) simp
next
  case (Cons b bad)
  have e: "erase (pre @ (b # bad) @ good # rest) i (Suc i) = pre @ bad @ good # rest"
    using erase_at [OF assms(1), of b "bad @ good # rest"] by simp
  have n: "(pre @ bad @ good # rest) ! i = hd (bad @ [good])"
    using assms(1) by (cases bad) (simp_all add: nth_append)
  have b: "mat_empty (imread b)" and bad: "list_all (\<lambda>p. mat_empty (imread p)) bad"
    using Cons.prems by simp_all
  have "while_empty imread i (pre @ (b # bad) @ good # rest) (imread b) tried
        = while_empty imread i (pre @ bad @ good # rest) (imread (hd (bad @ [good])))
            (tried @ [hd (bad @ [good])])"
    using assms(1) b by (subst while_empty.simps) (simp add: e n Let_def del: append.simps)
  also have "\<dots> = Decoded (pre @ good # rest) (imread good)
                     ((tried @ [hd (bad @ [good])]) @ tl (bad @ [good]))"
    by (rule Cons.IH [OF bad])
  finally show ?case by (cases bad) simp_all
qed

lemma while_empty_all_empty:
  assumes "length pre = i"
  shows "list_all (\<lambda>p. mat_empty (imread p)) (b # bad) \<Longrightarrow>
         while_empty imread i (pre @ b # bad) (imread b) tried = End_Of_Catalog pre (tried @ bad)"
proof (induction bad arbitrary: b tried)
  case Nil
  then show ?case
    using assms erase_at [OF assms, of b "[]"] by (subst while_empty.simps) simp
next
  case (Cons c bad)
  have e: "erase (pre @ b # c # bad) i (Suc i) = pre @ c # bad"
    by (rule erase_at [OF assms])
  have "while_empty imread i (pre @ b # c # bad) (imread b) tried
        = while_empty imread i (pre @ c # bad) (imread c) (tried @ [c])"
    using assms Cons.prems by (subst while_empty.simps) (simp add: e nth_append Let_def)
  also have "\<dots> = End_Of_Catalog pre ((tried @ [c]) @ bad)"
    using Cons.prems by (intro Cons.IH) simp
  finally show ?case by simp
qed

lemma while_empty_count:
  "i < length files \<Longrightarrow>
   (case while_empty imread i files img tried0 of
      Decoded files' img' tried \<Rightarrow>
        \<not> mat_empty img' \<and> i < length files' \<and> take i files' = take i files \<and>
        length tried + length files' = length tried0 + length files
    | End_Of_Catalog files' tried \<Rightarrow>
        files' = take i files \<and>
        length tried + length files' + 1 = length tried0 + length files
    | Out_Of_Range \<Rightarrow> False)"
proof (induction imread i files img tried0 rule: while_empty.induct)
  case (1 imread i files img tried)
  show ?case
  proof (cases "mat_empty img")
    case False
    then show ?thesis using "1.prems" by (subst while_empty.simps) simp
  next
    case True
    let ?files' = "erase files i (i + 1)"
    have len: "length ?files' + 1 = length files"
      using "1.prems" by (simp add: erase_def)
    have tk: "take i ?files' = take i files"
      using "1.prems" by (simp add: erase_def)
    show ?thesis
    proof (cases "i = length ?files'")
      case True
      then have eq: "?files' = take i files" using tk by (metis take_all order_refl)
      have "while_empty imread i files img tried = End_Of_Catalog ?files' tried"
        using \<open>mat_empty img\<close> "1.prems" True
        by (subst while_empty.simps) (simp add: Let_def)
      then show ?thesis
        using eq len by simp
    next
      case False
      then have lt: "i < length ?files'" using "1.prems" len by simp
      note IH = "1.IH" [OF True "1.prems" refl False lt]
      have step: "while_empty imread i files img tried
            = while_empty imread i ?files' (imread (?files' ! i)) (tried @ [?files' ! i])"
        using True "1.prems" False by (subst while_empty.simps) (simp add: Let_def)
      show ?thesis
        unfolding step using IH len tk
        by (auto split: pruned.splits)
    qed
  qed
qed

lemma while_empty_image:
  "img = imread (files ! i) \<Longrightarrow> while_empty imread i files img tried0 = Decoded files' img' tried
   \<Longrightarrow> img' = imread (files' ! i)"
proof (induction imread i files img tried0 rule: while_empty.induct)
  case (1 imread i files img tried0)
  show ?case
  proof (cases "mat_empty img")
    case False
    then show ?thesis using "1.prems" by (subst (asm) while_empty.simps) auto
  next
    case True
    let ?files' = "erase files i (i + 1)"
    have unf: "while_empty imread i files img tried0 =
        (if i < length files then
           (if i = length ?files' then End_Of_Catalog ?files' tried0
            else while_empty imread i ?files' (imread (?files' ! i)) (tried0 @ [?files' ! i]))
         else Out_Of_Range)"
      using True by (subst while_empty.simps) (simp add: Let_def)
    from "1.prems"(2) have lt: "i < length files" and ne: "i \<noteq> length ?files'"
      and rec: "while_empty imread i ?files' (imread (?files' ! i)) (tried0 @ [?files' ! i])
                = Decoded files' img' tried"
      unfolding unf by (auto split: if_splits)
    show ?thesis
      by (rule "1.IH" [OF True lt refl ne refl rec])
  qed
qed

lemma while_empty_tried:
  "tried0 \<noteq> [] \<Longrightarrow> img = imread (last tried0) \<Longrightarrow>
   list_all (\<lambda>p. mat_empty (imread p)) (butlast tried0) \<Longrightarrow>
   (case while_empty imread i files img tried0 of
      Decoded files' img' tried \<Rightarrow>
        tried \<noteq> [] \<and> list_all (\<lambda>p. mat_empty (imread p)) (butlast tried)
    | End_Of_Catalog files' tried \<Rightarrow> list_all (\<lambda>p. mat_empty (imread p)) tried
    | Out_Of_Range \<Rightarrow> True)"
proof (induction imread i files img tried0 rule: while_empty.induct)
  case (1 imread i files img tried0)
  show ?case
  proof (cases "mat_empty img")
    case False
    then show ?thesis using "1.prems" by (subst while_empty.simps) simp
  next
    case True
    let ?files' = "erase files i (i + 1)"
    have unf: "while_empty imread i files img tried0 =
        (if i < length files then
           (if i = length ?files' then End_Of_Catalog ?files' tried0
            else while_empty imread i ?files' (imread (?files' ! i)) (tried0 @ [?files' ! i]))
         else Out_Of_Range)"
      using True by (subst while_empty.simps) (simp add: Let_def)
    have all: "list_all (\<lambda>p. mat_empty (imread p)) tried0"
      using "1.prems" True by (cases tried0 rule: rev_cases) auto
    show ?thesis
    proof (cases "i < length files \<and> i \<noteq> length ?files'")
      case False
      then show ?thesis unfolding unf using all by auto
    next
      case c: True
      have "case while_empty imread i ?files' (imread (?files' ! i)) (tried0 @ [?files' ! i]) of
          Decoded files' img' tried \<Rightarrow>
            tried \<noteq> [] \<and> list_all (\<lambda>p. mat_empty (imread p)) (butlast tried)
        | End_Of_Catalog files' tried \<Rightarrow> list_all (\<lambda>p. mat_empty (imread p)) tried
        | Out_Of_Range \<Rightarrow> True"
        using c all by (intro "1.IH" [OF True _ refl]) simp_all
      then show ?thesis unfolding unf using c by simp
    qed
  qed
qed

text \<open>
  Claim C3. When the catalog starts with \<open>N\<close> entries that hold no image (\<open>bad\<close>), followed
  by one that does (\<open>good\<close>), pruning at index 0 erases exactly those \<open>N\<close> entries, one per
  failed \<open>imread\<close>, with the index left at 0; it returns the image of \<open>good\<close>, and the
  catalog that remains is \<open>good\<close> and what followed it, \<open>N\<close> entries shorter.
\<close>

theorem ensure_valid_at_skips_undecodable:
  assumes "list_all (\<lambda>p. mat_empty (imread p)) bad" and "\<not> mat_empty (imread good)"
  shows "ensure_valid_at imread (bad @ good # rest) 0
           = Decoded (good # rest) (imread good) (bad @ [good]) \<and>
         length (good # rest) = length (bad @ good # rest) - length bad"
proof -
  have h: "(bad @ good # rest) ! 0 = hd (bad @ [good])"
    by (cases bad) simp_all
  have "while_empty imread 0 ([] @ bad @ good # rest) (imread (hd (bad @ [good]))) [hd (bad @ [good])]
        = Decoded ([] @ good # rest) (imread good) ([hd (bad @ [good])] @ tl (bad @ [good]))"
    by (rule while_empty_decodes [OF _ assms]) simp
  then show ?thesis
    by (simp add: ensure_valid_at_def h)
qed

theorem ensure_valid_at_skips_undecodable_witness:
  "list_all (\<lambda>p. mat_empty (sample_imread p)) [''a.txt'', ''b.txt''] \<and>
   \<not> mat_empty (sample_imread ''c.jpg'') \<and>
   ensure_valid_at sample_imread [''a.txt'', ''b.txt'', ''c.jpg'', ''d.txt''] 0
     = Decoded [''c.jpg'', ''d.txt''] \<lparr>rows = 50, cols = 50\<rparr> [''a.txt'', ''b.txt'', ''c.jpg'']"
  using ensure_valid_at_skips_undecodable
    [of sample_imread "[''a.txt'', ''b.txt'']" "''c.jpg''" "[''d.txt'']"]
  by (simp add: sample_imread_def mat_empty_def)

text \<open>
  Claim C5. When no entry of a catalog (that is not empty) holds an image, pruning at
  index 0 erases every entry and ends with the empty catalog; \<open>imread\<close> was called once
  for each entry and not again; \<^verbatim>\<open>main\<close> returns 0 from inside the loop, whatever keys
  follow.
\<close>

theorem all_undecodable_ends_catalog:
  assumes "files \<noteq> []" and "list_all (\<lambda>p. mat_empty (imread p)) files"
  shows "ensure_valid_at imread files 0 = End_Of_Catalog [] files \<and>
         for_loop maxrows maxcols imread (enter imread files 0) codes = Terminated Pruned_Out \<and>
         exit_code Pruned_Out = Some 0"
proof -
  from assms(1) obtain b bad where f: "files = b # bad" by (cases files) auto
  have "while_empty imread 0 ([] @ b # bad) (imread b) [b] = End_Of_Catalog [] ([b] @ bad)"
    using assms(2) unfolding f by (intro while_empty_all_empty) simp_all
  then have e: "ensure_valid_at imread files 0 = End_Of_Catalog [] files"
    by (simp add: ensure_valid_at_def f)
  then have "enter imread files 0 = Terminated Pruned_Out"
    using assms(1) by (simp add: enter_def)
  moreover have "for_loop maxrows maxcols imread (Terminated x) codes = Terminated x" for x
    by (induction codes) (simp_all add: press_def)
  ultimately show ?thesis using e by simp
qed

theorem all_undecodable_ends_catalog_witness:
  "[''a.txt'', ''b.txt''] \<noteq> [] \<and>
   list_all (\<lambda>p. mat_empty (sample_imread p)) [''a.txt'', ''b.txt''] \<and>
   ensure_valid_at sample_imread [''a.txt'', ''b.txt''] 0 = End_Of_Catalog [] [''a.txt'', ''b.txt''] \<and>
   for_loop 100 100 sample_imread (enter sample_imread [''a.txt'', ''b.txt''] 0) [110]
     = Terminated Pruned_Out"
  using all_undecodable_ends_catalog [of "[''a.txt'', ''b.txt'']" sample_imread 100 100 "[110]"]
  by (simp add: sample_imread_def mat_empty_def)

text \<open>
  Claim C9. The pruning loop ends, for every catalog and every index inside it: either
  with an image, after one failed \<open>imread\<close> for each entry erased, or at the end of the
  catalog, after one failed \<open>imread\<close> for each entry from the index on. The failed
  attempts and the entries left add up to the length of the catalog, so there are never
  more failed attempts than entries. (\<open>while_empty\<close> is a total function: its termination
  is proved with the length of the catalog as the measure; the result is never
  \<open>Out_Of_Range\<close>.)
\<close>

theorem pruner_terminates:
  assumes "i < length files"
  shows "(\<exists>files' img tried.
            ensure_valid_at imread files i = Decoded files' img tried \<and>
            \<not> mat_empty img \<and> tried \<noteq> [] \<and>
            list_all (\<lambda>p. mat_empty (imread p)) (butlast tried) \<and>
            length (butlast tried) + length files' = length files \<and>
            i < length files') \<or>
         (\<exists>files' tried.
            ensure_valid_at imread files i = End_Of_Catalog files' tried \<and>
            list_all (\<lambda>p. mat_empty (imread p)) tried \<and>
            length tried + length files' = length files \<and>
            length files' = i)"
proof -
  let ?w = "while_empty imread i files (imread (files ! i)) [files ! i]"
  have e: "ensure_valid_at imread files i = ?w"
    using assms by (simp add: ensure_valid_at_def)
  have c: "case ?w of
      Decoded files' img' tried \<Rightarrow>
        \<not> mat_empty img' \<and> i < length files' \<and> take i files' = take i files \<and>
        length tried + length files' = length [files ! i] + length files
    | End_Of_Catalog files' tried \<Rightarrow>
        files' = take i files \<and>
        length tried + length files' + 1 = length [files ! i] + length files
    | Out_Of_Range \<Rightarrow> False"
    by (rule while_empty_count [OF assms])
  have t: "case ?w of
      Decoded files' img' tried \<Rightarrow>
        tried \<noteq> [] \<and> list_all (\<lambda>p. mat_empty (imread p)) (butlast tried)
    | End_Of_Catalog files' tried \<Rightarrow> list_all (\<lambda>p. mat_empty (imread p)) tried
    | Out_Of_Range \<Rightarrow> True"
    by (rule while_empty_tried) simp_all
  show ?thesis
  proof (cases ?w)
    case (Decoded files' img tried)
    with c t have "length (butlast tried) + length files' = length files"
      by (cases tried rule: rev_cases) simp_all
    with Decoded c t show ?thesis unfolding e by simp
  next
    case (End_Of_Catalog files' tried)
    with c have "length files' = i" using assms by simp
    with End_Of_Catalog c t show ?thesis unfolding e by simp
  next
    case Out_Of_Range
    with c show ?thesis by simp
  qed
qed

theorem pruner_terminates_witness:
  "(1::nat) < length [''a.jpg'', ''b.txt'', ''c.txt'', ''d.jpg''] \<and>
   ensure_valid_at sample_imread [''a.jpg'', ''b.txt'', ''c.txt'', ''d.jpg''] 1
     = Decoded [''a.jpg'', ''d.jpg''] \<lparr>rows = 50, cols = 50\<rparr> [''b.txt'', ''c.txt'', ''d.jpg'']"
  using pruner_terminates [of 1 "[''a.jpg'', ''b.txt'', ''c.txt'', ''d.jpg'']" sample_imread]
  by (simp add: ensure_valid_at_def while_empty.simps erase_def sample_imread_def mat_empty_def)

section \<open>The navigation loop\<close>

lemma ensure_valid_at_good:
  "i < length files \<Longrightarrow> \<not> mat_empty (imread (files ! i)) \<Longrightarrow>
   ensure_valid_at imread files i = Decoded files (imread (files ! i)) [files ! i]"
  by (simp add: ensure_valid_at_def while_empty.simps)

lemma enter_good:
  "0 \<le> i \<Longrightarrow> nat i < length files \<Longrightarrow> \<not> mat_empty (imread (files ! nat i)) \<Longrightarrow>
   enter imread files i = Viewing files i (imread (files ! nat i))"
  by (simp add: enter_def ensure_valid_at_good)

lemma enter_Viewing:
  assumes "enter imread files i = Viewing files' k img"
  shows "k = i \<and> 0 \<le> i \<and> nat i < length files' \<and> img = imread (files' ! nat i) \<and>
         \<not> mat_empty img \<and> take (nat i) files' = take (nat i) files"
proof -
  from assms have i: "0 \<le> i" "nat i < length files"
    by (auto simp: enter_def split: if_splits)
  from assms i obtain tried where
    d: "ensure_valid_at imread files (nat i) = Decoded files' img tried" and k: "k = i"
    and ne: "\<not> mat_empty img"
    by (auto simp: enter_def split: if_splits pruned.splits)
  from d i have w: "while_empty imread (nat i) files (imread (files ! nat i)) [files ! nat i]
      = Decoded files' img tried"
    by (simp add: ensure_valid_at_def)
  from while_empty_count [OF i(2), where imread = imread and img = "imread (files ! nat i)"
      and ?tried0.0 = "[files ! nat i]"] w
  have "nat i < length files'" "take (nat i) files' = take (nat i) files" by simp_all
  moreover from while_empty_image [OF refl w] have "img = imread (files' ! nat i)" .
  ultimately show ?thesis using k i ne by simp
qed

lemma viewing_ok_enter:
  assumes "list_all (\<lambda>p. \<not> mat_empty (imread p)) (take (nat i) files)"
  shows "viewing_ok imread (enter imread files i)"
proof (cases "enter imread files i")
  case (Terminated e)
  then show ?thesis by (simp add: viewing_ok_def)
next
  case (Viewing files' k img)
  from enter_Viewing [OF Viewing]
  have f: "k = i" "0 \<le> i" "nat i < length files'" "img = imread (files' ! nat i)"
    "\<not> mat_empty img" "take (nat i) files' = take (nat i) files"
    by blast+
  have "take (nat i + 1) files' = take (nat i) files' @ [files' ! nat i]"
    using f(3) by (simp add: take_Suc_conv_app_nth)
  then show ?thesis
    using f assms by (simp add: viewing_ok_def Viewing)
qed

lemma react_cases:
  "react response i = Break \<or> react response i = Continue i \<or>
   (i = 0 \<and> react response i = Continue (- 1)) \<or> (i \<noteq> 0 \<and> react response i = Continue (i - 2))"
  by (simp add: react_def)

lemma viewing_ok_press:
  assumes "viewing_ok imread s"
  shows "viewing_ok imread (press maxrows maxcols imread code s)"
proof (cases s)
  case (Terminated e)
  then show ?thesis by (simp add: press_def viewing_ok_def)
next
  case (Viewing files k img)
  with assms have k: "0 \<le> k" "nat k < length files"
    and ok: "list_all (\<lambda>p. \<not> mat_empty (imread p)) (take (nat k + 1) files)"
    by (simp_all add: viewing_ok_def)
  have sub: "list_all (\<lambda>p. \<not> mat_empty (imread p)) (take (nat j) files)" if "j \<le> k + 1" for j
  proof -
    have "nat j \<le> nat k + 1" using that k by linarith
    then have "take (nat j) files = take (nat j) (take (nat k + 1) files)"
      by (simp add: min_def)
    then show ?thesis using ok by (metis list_all_iff in_set_takeD)
  qed
  let ?r = "react (snd (display maxrows maxcols img code)) k"
  consider "?r = Break" | j where "?r = Continue j" "j + 1 \<le> k + 1"
    using react_cases [of "snd (display maxrows maxcols img code)" k] by fastforce
  then show ?thesis
  proof cases
    case 1
    then show ?thesis by (simp add: press_def Viewing viewing_ok_def)
  next
    case 2
    then show ?thesis
      using viewing_ok_enter [OF sub [OF 2(2)]] by (simp add: press_def Viewing)
  qed
qed

lemma viewing_ok_for_loop:
  "viewing_ok imread s \<Longrightarrow> viewing_ok imread (for_loop maxrows maxcols imread s codes)"
  by (induction codes arbitrary: s) (simp_all add: viewing_ok_press)

lemma viewing_ok_main:
  "viewing_ok imread (main help dir tree fds maxrows maxcols imread codes)"
proof -
  have "viewing_ok imread (enter imread files 0)" for files
    by (rule viewing_ok_enter) simp
  then have "viewing_ok imread (for_loop maxrows maxcols imread (enter imread files 0) codes)"
    for files
    by (rule viewing_ok_for_loop)
  moreover have "viewing_ok imread (Terminated e)" for e
    by (simp add: viewing_ok_def)
  ultimately show ?thesis
    by (simp add: main_def split: sum.splits prod.splits)
qed

text \<open>A catalog of three files, the second of which holds no image: \<^verbatim>\<open>n\<close> goes from the
  first file to the third, which is then at index 1; a second \<^verbatim>\<open>n\<close> ends the loop.\<close>

lemma skipping_example:
  "for_loop 100 100 sample_imread (enter sample_imread [''a.jpg'', ''b.txt'', ''c.jpg''] 0) []
     = Viewing [''a.jpg'', ''b.txt'', ''c.jpg''] 0 \<lparr>rows = 50, cols = 50\<rparr>"
  "for_loop 100 100 sample_imread (enter sample_imread [''a.jpg'', ''b.txt'', ''c.jpg''] 0)
       [of_char CHR ''n'']
     = Viewing [''a.jpg'', ''c.jpg''] 1 \<lparr>rows = 50, cols = 50\<rparr>"
  "for_loop 100 100 sample_imread (enter sample_imread [''a.jpg'', ''b.txt'', ''c.jpg''] 0)
       [of_char CHR ''n'', of_char CHR ''n'']
     = Terminated Exhausted"
  "for_loop 100 100 sample_imread (enter sample_imread [''a.jpg'', ''b.txt'', ''c.jpg''] 0)
       [of_char CHR ''n'', of_char CHR ''p'', of_char CHR ''p'', of_char CHR ''q'']
     = Terminated Quit"
  by (simp_all add: enter_def ensure_valid_at_def while_empty.simps erase_def sample_imread_def
      mat_empty_def press_def react_def display_def Let_def)

text \<open>
  Claim C4. In every state \<open>Viewing files k img\<close> that \<^verbatim>\<open>main\<close> reaches, the key \<^verbatim>\<open>p\<close> leads
  to the frame at index 0 when \<open>k = 0\<close> and to the frame at index \<open>k - 1\<close> otherwise; the
  catalog is unchanged.
\<close>

theorem press_p_shows_previous:
  assumes "main help dir tree fds maxrows maxcols imread codes = Viewing files k img"
  shows "press maxrows maxcols imread (of_char CHR ''p'') (Viewing files k img)
         = Viewing files (if k = 0 then 0 else k - 1)
             (imread (files ! nat (if k = 0 then 0 else k - 1)))"
proof -
  have "viewing_ok imread (Viewing files k img)"
    using viewing_ok_main [of imread "help" dir tree fds maxrows maxcols codes] assms by simp
  then have k: "0 \<le> k" "nat k < length files"
    and ok: "list_all (\<lambda>p. \<not> mat_empty (imread p)) (take (nat k + 1) files)"
    by (simp_all add: viewing_ok_def)
  let ?j = "if k = 0 then 0 else k - 1"
  have j: "0 \<le> ?j" "nat ?j < length files" "nat ?j < nat k + 1"
    using k by auto
  have "take (nat k + 1) files ! nat ?j = files ! nat ?j"
    using j(3) by (rule nth_take)
  moreover have "nat ?j < length (take (nat k + 1) files)"
    using j by simp
  ultimately have "files ! nat ?j \<in> set (take (nat k + 1) files)"
    by (metis nth_mem)
  then have good: "\<not> mat_empty (imread (files ! nat ?j))"
    using ok by (simp add: list_all_iff)
  have "press maxrows maxcols imread (of_char CHR ''p'') (Viewing files k img)
        = enter imread files ?j"
    by (simp add: press_def react_def display_def Let_def)
  also have "\<dots> = Viewing files ?j (imread (files ! nat ?j))"
    by (rule enter_good [where i = ?j and files = files and imread = imread, OF j(1) j(2) good])
  finally show ?thesis .
qed

theorem press_p_shows_previous_witness:
  "main False ''pics'' sample_tree 1000 100 100 sample_imread [110]
     = Viewing [''pics/a.jpg'', ''pics/b.jpg''] 1 \<lparr>rows = 50, cols = 50\<rparr> \<and>
   press 100 100 sample_imread (of_char CHR ''p'')
       (Viewing [''pics/a.jpg'', ''pics/b.jpg''] 1 \<lparr>rows = 50, cols = 50\<rparr>)
     = Viewing [''pics/a.jpg'', ''pics/b.jpg''] 0 \<lparr>rows = 50, cols = 50\<rparr>"
proof -
  have m: "main False ''pics'' sample_tree 1000 100 100 sample_imread [110]
     = Viewing [''pics/a.jpg'', ''pics/b.jpg''] 1 \<lparr>rows = 50, cols = 50\<rparr>"
    by (simp add: main_def sample_tree_def enter_def ensure_valid_at_def while_empty.simps
        sample_imread_def mat_empty_def press_def react_def display_def Let_def)
  show ?thesis
    using press_p_shows_previous [OF m] m by (simp add: sample_imread_def)
qed

text \<open>
  Claim C1 says that a key other than \<^verbatim>\<open>q\<close>, \<^verbatim>\<open>n\<close>, \<^verbatim>\<open>p\<close> and space shows the same entry
  again. The program does not: with two pictures in the catalog and the first one on the
  screen, the key \<^verbatim>\<open>x\<close> shows the second one.
\<close>

theorem other_key_redisplays_counterexample:
  "main False ''pics'' sample_tree 1000 100 100 sample_imread []
     = Viewing [''pics/a.jpg'', ''pics/b.jpg''] 0 \<lparr>rows = 50, cols = 50\<rparr> \<and>
   press 100 100 sample_imread (of_char CHR ''x'')
       (Viewing [''pics/a.jpg'', ''pics/b.jpg''] 0 \<lparr>rows = 50, cols = 50\<rparr>)
     = Viewing [''pics/a.jpg'', ''pics/b.jpg''] 1 \<lparr>rows = 50, cols = 50\<rparr>"
  by (simp add: main_def sample_tree_def enter_def ensure_valid_at_def while_empty.simps
        sample_imread_def mat_empty_def press_def react_def display_def Let_def)

text \<open>
  Claim C1, amended. A key other than \<^verbatim>\<open>q\<close>, \<^verbatim>\<open>n\<close>, \<^verbatim>\<open>p\<close> and space falls through to the
  end of the loop body, and the \<^verbatim>\<open>for\<close> statement adds one to the index: the loop goes on
  at \<open>k + 1\<close> exactly as it does for \<^verbatim>\<open>n\<close>, and the next frame shown, if there is one, is
  the frame at index \<open>k + 1\<close>.
\<close>

theorem other_key_advances:
  assumes "uint (word_of_int code :: uchar) \<noteq> of_char CHR ''q''"
    and "uint (word_of_int code :: uchar) \<noteq> of_char CHR ''n''"
    and "uint (word_of_int code :: uchar) \<noteq> of_char CHR ''p''"
    and "uint (word_of_int code :: uchar) \<noteq> of_char CHR '' ''"
  shows "press maxrows maxcols imread code (Viewing files k img) = enter imread files (k + 1) \<and>
         press maxrows maxcols imread code (Viewing files k img)
           = press maxrows maxcols imread (of_char CHR ''n'') (Viewing files k img) \<and>
         (\<forall>files' k' img'.
            press maxrows maxcols imread code (Viewing files k img) = Viewing files' k' img'
            \<longrightarrow> k' = k + 1)"
proof -
  have 1: "press maxrows maxcols imread code (Viewing files k img) = enter imread files (k + 1)"
    using assms by (simp add: press_def react_def display_def Let_def)
  have 2: "press maxrows maxcols imread (of_char CHR ''n'') (Viewing files k img)
           = enter imread files (k + 1)"
    by (simp add: press_def react_def display_def Let_def)
  show ?thesis
    unfolding 1 2 using enter_Viewing [of imread files "k + 1"] by blast
qed

theorem other_key_advances_witness:
  "uint (word_of_int (of_char CHR ''x'') :: uchar) \<noteq> of_char CHR ''q'' \<and>
   uint (word_of_int (of_char CHR ''x'') :: uchar) \<noteq> of_char CHR ''n'' \<and>
   uint (word_of_int (of_char CHR ''x'') :: uchar) \<noteq> of_char CHR ''p'' \<and>
   uint (word_of_int (of_char CHR ''x'') :: uchar) \<noteq> of_char CHR '' '' \<and>
   press 100 100 sample_imread (of_char CHR ''x'')
       (Viewing [''pics/a.jpg'', ''pics/b.jpg'', ''pics/c.jpg''] 1 \<lparr>rows = 50, cols = 50\<rparr>)
     = Viewing [''pics/a.jpg'', ''pics/b.jpg'', ''pics/c.jpg''] 2 \<lparr>rows = 50, cols = 50\<rparr>"
proof -
  have h: "uint (word_of_int (of_char CHR ''x'') :: uchar) \<noteq> of_char CHR ''q''"
    "uint (word_of_int (of_char CHR ''x'') :: uchar) \<noteq> of_char CHR ''n''"
    "uint (word_of_int (of_char CHR ''x'') :: uchar) \<noteq> of_char CHR ''p''"
    "uint (word_of_int (of_char CHR ''x'') :: uchar) \<noteq> of_char CHR '' ''"
    by simp_all
  have "press 100 100 sample_imread (of_char CHR ''x'')
       (Viewing [''pics/a.jpg'', ''pics/b.jpg'', ''pics/c.jpg''] 1 \<lparr>rows = 50, cols = 50\<rparr>)
     = enter sample_imread [''pics/a.jpg'', ''pics/b.jpg'', ''pics/c.jpg''] (1 + 1)"
    by (rule other_key_advances [OF h, THEN conjunct1])
  also have "\<dots> = Viewing [''pics/a.jpg'', ''pics/b.jpg'', ''pics/c.jpg''] 2 \<lparr>rows = 50, cols = 50\<rparr>"
    by (simp add: enter_def ensure_valid_at_def while_empty.simps sample_imread_def mat_empty_def)
  finally show ?thesis using h by blast
qed

text \<open>
  Claim C10. The key that \<^verbatim>\<open>display\<close> returns is the code of \<^verbatim>\<open>waitKey\<close> modulo 256, so two
  codes that agree modulo 256 give the same key and the same step of the loop.
\<close>

theorem key_is_code_mod_256:
  "uint (snd (display maxrows maxcols img code)) = code mod 256 \<and>
   (code mod 256 = code' mod 256 \<longrightarrow>
      snd (display maxrows maxcols img code) = snd (display maxrows maxcols img code') \<and>
      press maxrows maxcols imread code s = press maxrows maxcols imread code' s)"
proof -
  have u: "uint (word_of_int c :: uchar) = c mod 256" for c
    by (simp add: uint_word_of_int)
  have eq: "(word_of_int code :: uchar) = word_of_int code'" if "code mod 256 = code' mod 256"
    using that by (simp add: word_uint_eq_iff u)
  show ?thesis
    using eq by (cases s) (auto simp: display_def Let_def u press_def)
qed

theorem key_is_code_mod_256_witness:
  "(1048689::int) mod 256 = of_char CHR ''q'' mod 256 \<and>
   uint (snd (display 100 100 \<lparr>rows = 50, cols = 50\<rparr> 1048689)) = of_char CHR ''q'' \<and>
   press 100 100 sample_imread 1048689 (Viewing [''pics/a.jpg''] 0 \<lparr>rows = 50, cols = 50\<rparr>)
     = Terminated Quit"
  using key_is_code_mod_256 [of 100 100 "\<lparr>rows = 50, cols = 50\<rparr>" 1048689 "of_char CHR ''q''"
      sample_imread "Viewing [''pics/a.jpg''] 0 \<lparr>rows = 50, cols = 50\<rparr>"]
  by (simp add: press_def react_def display_def Let_def)

text \<open>
  Claim C8. When the enumeration finds no file, \<^verbatim>\<open>main\<close> stops at
  \<^verbatim>\<open>assert(files.size() != 0)\<close>: the assertion fails (a message on the error stream, then
  \<^verbatim>\<open>abort\<close>, so no exit code is returned), whatever keys follow; the loop is never
  entered and no frame is shown.
\<close>

theorem empty_catalog_is_fatal:
  assumes "\<not> help" and "dir \<noteq> []" and "file_list dir tree [] fds = Inr ([], left)"
  shows "main help dir tree fds maxrows maxcols imread codes = Terminated Assertion_Failed \<and>
         exit_code Assertion_Failed = None"
  using assms by (simp add: main_def)

theorem empty_catalog_is_fatal_witness:
  "\<not> False \<and> ''pics'' \<noteq> [] \<and> file_list ''pics'' empty_tree [] 1000 = Inr ([], 999) \<and>
   main False ''pics'' empty_tree 1000 100 100 sample_imread [110, 110]
     = Terminated Assertion_Failed"
  using empty_catalog_is_fatal
    [of False "''pics''" empty_tree 1000 999 100 100 sample_imread "[110, 110]"]
  by (simp add: empty_tree_def)


section \<open>The enumerator lists the regular files, depth first\<close>



text \<open>Three directories in a row need three descriptors: with two, the third \<^verbatim>\<open>opendir\<close>
  fails and \<^verbatim>\<open>file_list\<close> throws, though every directory can be read.\<close>

lemma descriptors_run_out:
  "directories chain_tree = 3"
  "file_list ''pics'' chain_tree [] 3
     = Inr ([''pics/a.jpg'', ''pics/one/b.jpg'', ''pics/one/two/c.jpg''], 0)"
  "file_list ''pics'' chain_tree [] 2 = Inl ''Unknown directory pics/one/two''"
  by (simp_all add: chain_tree_def)

lemma path_of_Nil [simp]: "path_of dirname [] = dirname"
  by (simp add: path_of_def)













section \<open>The scaler\<close>

subsection \<open>Rounding to single precision\<close>

text \<open>Values of \<open>fl\<close> against the single precision numbers they must be: one third is
  \<^verbatim>\<open>0x3EAAAAAB\<close>, one tenth is \<^verbatim>\<open>0x3DCCCCCD\<close>; above \<open>2 ^ 24\<close> odd integers are ties and
  go to the even neighbour.\<close>

lemma fl_binary32_values:
  "fl (1 / 3) = 11184811 / 2 ^ 25"
  "fl (1 / 10) = 13421773 / 2 ^ 27"
  "fl (100 / 97) = 8648049 / 2 ^ 23"
  "fl 16777217 = 16777216"
  "fl 16777219 = 16777220"
  "fl (- (7 / 4)) = - (7 / 4)"
  by code_simp+

lemma ilog2_bounds:
  assumes "0 < x"
  shows "2 powi (ilog2 x) \<le> x \<and> x < 2 powi (ilog2 x + 1)"
proof (cases "1 \<le> x")
  case True
  let ?m = "\<lfloor>x\<rfloor>"
  have m: "0 < ?m" using True by simp
  have e: "ilog2 x = bitlen ?m - 1" using True by (simp add: ilog2_def)
  have b1: "1 \<le> bitlen ?m" using m by (simp add: bitlen_alt_def)
  from bitlen_bounds [OF m] have lo: "2 ^ nat (bitlen ?m - 1) \<le> ?m" and hi: "?m < 2 ^ nat (bitlen ?m)"
    by simp_all
  have "(2::rat) powi (bitlen ?m - 1) = of_int (2 ^ nat (bitlen ?m - 1))"
    using b1 by (simp add: power_int_def)
  also have "\<dots> \<le> of_int ?m" using lo by (simp only: of_int_le_iff)
  also have "\<dots> \<le> x" by simp
  finally have 1: "2 powi (ilog2 x) \<le> x" by (simp add: e)
  have "?m + 1 \<le> 2 ^ nat (bitlen ?m)" using hi by simp
  then have "of_int (?m + 1) \<le> (of_int (2 ^ nat (bitlen ?m)) :: rat)"
    by (simp only: of_int_le_iff)
  moreover have "x < of_int (?m + 1)" using floor_correct [of x] by blast
  ultimately have "x < of_int (2 ^ nat (bitlen ?m))" by linarith
  also have "\<dots> = 2 powi (bitlen ?m)" using b1 by (simp add: power_int_def)
  finally have 2: "x < 2 powi (ilog2 x + 1)" by (simp add: e)
  from 1 2 show ?thesis ..
next
  case False
  let ?y = "1 / x"
  let ?k = "\<lceil>?y\<rceil> - 1"
  have y: "1 < ?y" using False assms by simp
  then have k: "0 < ?k" by (simp add: less_ceiling_iff)
  have e: "ilog2 x = - bitlen ?k" using False by (simp add: ilog2_def)
  have b1: "1 \<le> bitlen ?k" using k by (simp add: bitlen_alt_def)
  from bitlen_bounds [OF k] have lo: "2 ^ nat (bitlen ?k - 1) \<le> ?k" and hi: "?k < 2 ^ nat (bitlen ?k)"
    by simp_all
  have "?k + 1 \<le> 2 ^ nat (bitlen ?k)" using hi by simp
  then have "of_int (?k + 1) \<le> (of_int (2 ^ nat (bitlen ?k)) :: rat)"
    by (simp only: of_int_le_iff)
  moreover have "?y \<le> of_int (?k + 1)" using ceiling_correct [of ?y] by simp
  ultimately have "?y \<le> of_int (2 ^ nat (bitlen ?k))" by linarith
  then have yle: "?y \<le> 2 ^ nat (bitlen ?k)" by simp
  have "(2::rat) powi (- bitlen ?k) = 1 / 2 ^ nat (bitlen ?k)"
    using b1 by (simp add: power_int_def field_simps)
  also have "\<dots> \<le> x"
    using yle assms by (simp add: field_simps)
  finally have 1: "2 powi (ilog2 x) \<le> x" by (simp add: e)
  have "of_int (2 ^ nat (bitlen ?k - 1)) \<le> (of_int ?k :: rat)"
    using lo by (simp only: of_int_le_iff)
  moreover have "of_int ?k < ?y" using ceiling_correct [of ?y] by simp
  ultimately have "of_int (2 ^ nat (bitlen ?k - 1)) < ?y" by linarith
  then have ylt: "2 ^ nat (bitlen ?k - 1) < ?y" by simp
  have "x < 1 / 2 ^ nat (bitlen ?k - 1)"
    using ylt assms by (simp add: field_simps)
  also have "\<dots> = 2 powi (- bitlen ?k + 1)"
    using b1 by (simp add: power_int_def field_simps nat_diff_distrib)
  finally have 2: "x < 2 powi (ilog2 x + 1)" by (simp add: e)
  from 1 2 show ?thesis ..
qed

lemma round_even_error: "\<bar>of_int (round_even y) - y\<bar> \<le> 1 / 2"
proof -
  have "of_int \<lfloor>y\<rfloor> \<le> y" "y < of_int \<lfloor>y\<rfloor> + 1"
    using floor_correct [of y] by simp_all
  then show ?thesis
    by (auto simp: round_even_def Let_def abs_le_iff)
qed

lemma round_even_of_int [simp]: "round_even (of_int k) = k"
  by (simp add: round_even_def)

lemma fl_pos_unfold:
  "0 < x \<Longrightarrow> fl x = of_int (round_even (x / 2 powi (ilog2 x - 23))) * 2 powi (ilog2 x - 23)"
  by (simp add: fl_def Let_def)

lemma fl_error:
  assumes "0 < x"
  shows "\<bar>fl x - x\<bar> \<le> x / 2 ^ 24"
proof -
  let ?u = "(2::rat) powi (ilog2 x - 23)"
  have u: "0 < ?u" by simp
  have "?u = 2 powi (ilog2 x) / 2 ^ 23"
    by (simp add: power_int_diff)
  also have "\<dots> \<le> x / 2 ^ 23"
    using ilog2_bounds [OF assms] by (simp add: divide_right_mono)
  finally have ule: "?u \<le> x / 2 ^ 23" .
  have "fl x - x = (of_int (round_even (x / ?u)) - x / ?u) * ?u"
    using u by (simp add: fl_pos_unfold [OF assms] field_simps)
  then have "\<bar>fl x - x\<bar> = \<bar>of_int (round_even (x / ?u)) - x / ?u\<bar> * ?u"
    using u by (simp add: abs_mult)
  also have "\<dots> \<le> (1 / 2) * ?u"
    using round_even_error [of "x / ?u"] u by (intro mult_right_mono) simp_all
  also have "\<dots> \<le> (1 / 2) * (x / 2 ^ 23)"
    using ule by simp
  finally show ?thesis by simp
qed

lemma fl_lower: "0 \<le> x \<Longrightarrow> x * (1 - 1 / 2 ^ 24) \<le> fl x"
proof (cases "x = 0")
  case True
  then show ?thesis by (simp add: fl_def)
next
  case False
  assume "0 \<le> x"
  with False have "0 < x" by simp
  from fl_error [OF this] have "fl x - x \<le> x / 2 ^ 24" "- (fl x - x) \<le> x / 2 ^ 24"
    by (simp_all only: abs_le_iff)
  then have "(fl x - x) * 16777216 \<le> x" "(x - fl x) * 16777216 \<le> x"
    by (simp_all add: field_simps)
  then show ?thesis
    by (simp add: field_simps)
qed

lemma fl_upper: "0 \<le> x \<Longrightarrow> fl x \<le> x * (1 + 1 / 2 ^ 24)"
proof (cases "x = 0")
  case True
  then show ?thesis by (simp add: fl_def)
next
  case False
  assume "0 \<le> x"
  with False have "0 < x" by simp
  from fl_error [OF this] have "fl x - x \<le> x / 2 ^ 24" "- (fl x - x) \<le> x / 2 ^ 24"
    by (simp_all only: abs_le_iff)
  then have "(fl x - x) * 16777216 \<le> x" "(x - fl x) * 16777216 \<le> x"
    by (simp_all add: field_simps)
  then show ?thesis
    by (simp add: field_simps)
qed

lemma fl_nonneg: "0 \<le> x \<Longrightarrow> 0 \<le> fl x"
proof -
  assume x: "0 \<le> x"
  have "0 \<le> x * (1 - 1 / 2 ^ 24)" using x by simp
  also have "\<dots> \<le> fl x" by (rule fl_lower [OF x])
  finally show ?thesis .
qed

lemma fl_of_int:
  assumes "0 \<le> n" and "n < 2 ^ 24"
  shows "fl (of_int n) = of_int n"
proof (cases "n = 0")
  case True
  then show ?thesis by (simp add: fl_def)
next
  case False
  with assms have n: "0 < n" by simp
  let ?x = "of_int n :: rat"
  let ?e = "ilog2 ?x"
  have x: "0 < ?x" using n by simp
  have e: "?e \<le> 23"
  proof (rule ccontr)
    assume "\<not> ?e \<le> 23"
    then have "24 \<le> ?e" by simp
    then have "(2::rat) powi 24 \<le> 2 powi ?e" by (intro power_int_increasing) simp_all
    also have "\<dots> \<le> ?x" using ilog2_bounds [OF x] by simp
    finally have "(2::rat) ^ 24 \<le> of_int n" by simp
    then have "(of_int (2 ^ 24) :: rat) \<le> of_int n" by simp
    then have "(2::int) ^ 24 \<le> n" by (simp only: of_int_le_iff)
    with assms(2) show False by simp
  qed
  let ?k = "nat (23 - ?e)"
  have u: "(2::rat) powi (?e - 23) = 1 / 2 ^ ?k"
    using e by (simp add: power_int_def field_simps) 
  have q: "?x / 2 powi (?e - 23) = of_int (n * 2 ^ ?k)"
    by (simp add: u)
  show ?thesis
    unfolding fl_pos_unfold [OF x] q round_even_of_int by (simp add: u)
qed

lemma i2f_exact: "0 \<le> n \<Longrightarrow> n < 2 ^ 24 \<Longrightarrow> i2f n = of_int n"
  by (simp add: i2f_def fl_of_int)

subsection \<open>The ratio and the size of the frame\<close>

lemma scaling_ratio_min:
  assumes "0 \<le> maxrows" "maxrows < 2 ^ 24" "0 \<le> maxcols" "maxcols < 2 ^ 24"
    and "0 < rows img" "rows img < 2 ^ 24" "0 < cols img" "cols img < 2 ^ 24"
  shows "scaling_ratio maxrows maxcols img
         = min (fl (of_int maxcols / of_int (cols img))) (fl (of_int maxrows / of_int (rows img)))"
  using assms by (simp add: scaling_ratio_def fdiv_def i2f_exact Let_def min_def)

lemma min_fl_lower:
  assumes "0 \<le> a" "0 \<le> b"
  shows "min a b * (1 - 1 / 2 ^ 24) \<le> min (fl a) (fl b)"
proof -
  have "min a b * (1 - 1 / 2 ^ 24) \<le> a * (1 - 1 / 2 ^ 24)"
    by (intro mult_right_mono) simp_all
  also have "\<dots> \<le> fl a" by (rule fl_lower [OF assms(1)])
  finally have 1: "min a b * (1 - 1 / 2 ^ 24) \<le> fl a" .
  have "min a b * (1 - 1 / 2 ^ 24) \<le> b * (1 - 1 / 2 ^ 24)"
    by (intro mult_right_mono) simp_all
  also have "\<dots> \<le> fl b" by (rule fl_lower [OF assms(2)])
  finally have 2: "min a b * (1 - 1 / 2 ^ 24) \<le> fl b" .
  from 1 2 show ?thesis by simp
qed

lemma min_fl_upper:
  assumes "0 \<le> a" "0 \<le> b"
  shows "min (fl a) (fl b) \<le> min a b * (1 + 1 / 2 ^ 24)"
proof (cases "a \<le> b")
  case True
  have "min (fl a) (fl b) \<le> fl a" by simp
  also have "\<dots> \<le> a * (1 + 1 / 2 ^ 24)" by (rule fl_upper [OF assms(1)])
  finally show ?thesis using True by (simp add: min_def)
next
  case False
  have "min (fl a) (fl b) \<le> fl b" by simp
  also have "\<dots> \<le> b * (1 + 1 / 2 ^ 24)" by (rule fl_upper [OF assms(2)])
  finally show ?thesis using False by (simp add: min_def)
qed

lemma product_bounds:
  assumes "0 \<le> q" "0 \<le> n"
    and "q * (1 - 1 / 2 ^ 24) \<le> \<rho>" "\<rho> \<le> q * (1 + 1 / 2 ^ 24)"
  shows "n * q * (1 - 1 / 2 ^ 24)\<^sup>2 \<le> fl (\<rho> * n)"
    and "fl (\<rho> * n) \<le> n * q * (1 + 1 / 2 ^ 24)\<^sup>2"
proof -
  have r: "0 \<le> \<rho>"
  proof -
    have "0 \<le> q * (1 - 1 / 2 ^ 24)" using assms(1) by simp
    with assms(3) show ?thesis by linarith
  qed
  then have rn: "0 \<le> \<rho> * n" using assms(2) by simp
  have "n * q * (1 - 1 / 2 ^ 24)\<^sup>2 = (q * (1 - 1 / 2 ^ 24)) * n * (1 - 1 / 2 ^ 24)"
    by (simp add: power2_eq_square)
  also have "\<dots> \<le> \<rho> * n * (1 - 1 / 2 ^ 24)"
    using assms(2,3) by (intro mult_right_mono) simp_all
  also have "\<dots> \<le> fl (\<rho> * n)" by (rule fl_lower [OF rn])
  finally show "n * q * (1 - 1 / 2 ^ 24)\<^sup>2 \<le> fl (\<rho> * n)" .
  have "fl (\<rho> * n) \<le> \<rho> * n * (1 + 1 / 2 ^ 24)" by (rule fl_upper [OF rn])
  also have "\<dots> \<le> (q * (1 + 1 / 2 ^ 24)) * n * (1 + 1 / 2 ^ 24)"
    using assms(2,4) by (intro mult_right_mono) simp_all
  also have "\<dots> = n * q * (1 + 1 / 2 ^ 24)\<^sup>2"
    by (simp add: power2_eq_square)
  finally show "fl (\<rho> * n) \<le> n * q * (1 + 1 / 2 ^ 24)\<^sup>2" .
qed

lemma display_frame:
  assumes "0 \<le> maxrows" "maxrows < 2 ^ 24" "0 \<le> maxcols" "maxcols < 2 ^ 24"
    and "0 < rows img" "rows img < 2 ^ 24" "0 < cols img" "cols img < 2 ^ 24"
  shows "fst (display maxrows maxcols img code)
         = \<lparr>rows = \<lfloor>fl (scaling_ratio maxrows maxcols img * of_int (rows img))\<rfloor>,
            cols = \<lfloor>fl (scaling_ratio maxrows maxcols img * of_int (cols img))\<rfloor>\<rparr>"
proof -
  let ?r = "scaling_ratio maxrows maxcols img"
  have "0 \<le> fl (of_int maxcols / of_int (cols img))" "0 \<le> fl (of_int maxrows / of_int (rows img))"
    using assms by (simp_all add: fl_nonneg)
  then have "0 \<le> ?r"
    unfolding scaling_ratio_min [OF assms] by simp
  then have "0 \<le> fl (?r * of_int (rows img))" "0 \<le> fl (?r * of_int (cols img))"
    using assms by (simp_all add: fl_nonneg)
  then show ?thesis
    using assms by (simp add: display_def Let_def fmul_def f2i_def i2f_exact)
qed

lemma spec_ratio_close:
  assumes "0 \<le> maxrows" "maxrows < 2 ^ 24" "0 \<le> maxcols" "maxcols < 2 ^ 24"
    and "0 < rows img" "rows img < 2 ^ 24" "0 < cols img" "cols img < 2 ^ 24"
  shows "0 \<le> spec_ratio maxrows maxcols img"
    and "spec_ratio maxrows maxcols img * (1 - 1 / 2 ^ 24) \<le> scaling_ratio maxrows maxcols img"
    and "scaling_ratio maxrows maxcols img \<le> spec_ratio maxrows maxcols img * (1 + 1 / 2 ^ 24)"
proof -
  have q: "0 \<le> (of_int maxcols / of_int (cols img) :: rat)"
    "0 \<le> (of_int maxrows / of_int (rows img) :: rat)"
    using assms by simp_all
  then show "0 \<le> spec_ratio maxrows maxcols img"
    by (simp add: spec_ratio_def)
  show "spec_ratio maxrows maxcols img * (1 - 1 / 2 ^ 24) \<le> scaling_ratio maxrows maxcols img"
    unfolding scaling_ratio_min [OF assms] spec_ratio_def by (rule min_fl_lower [OF q])
  show "scaling_ratio maxrows maxcols img \<le> spec_ratio maxrows maxcols img * (1 + 1 / 2 ^ 24)"
    unfolding scaling_ratio_min [OF assms] spec_ratio_def by (rule min_fl_upper [OF q])
qed

text \<open>
  Claim C2 says that the frame has \<open>round (rows * ratio)\<close> rows and \<open>round (cols * ratio)\<close>
  columns. The program drops the fraction instead: for a raster of 1 row and 4 columns and
  a bound of 100 rows and 7 columns the ratio is \<open>7 / 4\<close> (every number here is exact in
  single precision), the frame has 1 row, and rounding \<open>7 / 4\<close> gives 2.
\<close>

theorem scaler_rounds_counterexample:
  "fst (display 100 7 \<lparr>rows = 1, cols = 4\<rparr> 110) = \<lparr>rows = 1, cols = 7\<rparr> \<and>
   spec_fit 100 7 \<lparr>rows = 1, cols = 4\<rparr> = \<lparr>rows = 2, cols = 7\<rparr> \<and>
   fst (display 100 7 \<lparr>rows = 1, cols = 4\<rparr> 110) \<noteq> spec_fit 100 7 \<lparr>rows = 1, cols = 4\<rparr>"
  by code_simp

text \<open>
  Claim C2, amended. For every raster with positive rows and columns and every bound (all
  four numbers below \<open>2 ^ 24\<close>, so that their conversion to \<^verbatim>\<open>float\<close> is exact): the ratio
  is the smaller of the two quotients, each rounded to single precision; the frame has
  \<open>\<lfloor>rows * ratio\<rfloor>\<close> rows and \<open>\<lfloor>cols * ratio\<rfloor>\<close> columns, each product rounded to single
  precision and then cut down to an integer, not rounded to the nearest. Against the
  product \<open>x\<close> with the real quotient of the specification, each dimension lies above
  \<open>x * (1 - 1 / 2 ^ 24)\<^sup>2 - 1\<close> and at most at \<open>x * (1 + 1 / 2 ^ 24)\<^sup>2\<close>.
\<close>

theorem scaler_truncates:
  assumes "0 \<le> maxrows" "maxrows < 2 ^ 24" "0 \<le> maxcols" "maxcols < 2 ^ 24"
    and "0 < rows img" "rows img < 2 ^ 24" "0 < cols img" "cols img < 2 ^ 24"
  shows "scaling_ratio maxrows maxcols img
           = min (fl (of_int maxcols / of_int (cols img))) (fl (of_int maxrows / of_int (rows img))) \<and>
         fst (display maxrows maxcols img code)
           = \<lparr>rows = \<lfloor>fl (scaling_ratio maxrows maxcols img * of_int (rows img))\<rfloor>,
              cols = \<lfloor>fl (scaling_ratio maxrows maxcols img * of_int (cols img))\<rfloor>\<rparr> \<and>
         of_int (rows img) * spec_ratio maxrows maxcols img * (1 - 1 / 2 ^ 24)\<^sup>2 - 1
           < of_int (rows (fst (display maxrows maxcols img code))) \<and>
         of_int (rows (fst (display maxrows maxcols img code)))
           \<le> of_int (rows img) * spec_ratio maxrows maxcols img * (1 + 1 / 2 ^ 24)\<^sup>2 \<and>
         of_int (cols img) * spec_ratio maxrows maxcols img * (1 - 1 / 2 ^ 24)\<^sup>2 - 1
           < of_int (cols (fst (display maxrows maxcols img code))) \<and>
         of_int (cols (fst (display maxrows maxcols img code)))
           \<le> of_int (cols img) * spec_ratio maxrows maxcols img * (1 + 1 / 2 ^ 24)\<^sup>2"
proof -
  let ?q = "spec_ratio maxrows maxcols img"
  let ?s = "scaling_ratio maxrows maxcols img"
  note c = spec_ratio_close [OF assms]
  note f = display_frame [OF assms, of code]
  have b: "n * ?q * (1 - 1 / 2 ^ 24)\<^sup>2 - 1 < of_int \<lfloor>fl (?s * n)\<rfloor> \<and>
           of_int \<lfloor>fl (?s * n)\<rfloor> \<le> n * ?q * (1 + 1 / 2 ^ 24)\<^sup>2" if "0 \<le> n" for n
  proof -
    note p = product_bounds [OF c(1) that c(2) c(3)]
    have "fl (?s * n) - 1 < of_int \<lfloor>fl (?s * n)\<rfloor>" "of_int \<lfloor>fl (?s * n)\<rfloor> \<le> fl (?s * n)"
      using floor_correct [of "fl (?s * n)"] by simp_all
    with p show ?thesis by linarith
  qed
  have "0 \<le> (of_int (rows img) :: rat)" "0 \<le> (of_int (cols img) :: rat)"
    using assms by simp_all
  from b [OF this(1)] b [OF this(2)] show ?thesis
    unfolding f by (simp add: scaling_ratio_min [OF assms])
qed

theorem scaler_truncates_witness:
  "(0::int) \<le> 100 \<and> (100::int) < 2 ^ 24 \<and> (0::int) \<le> 7 \<and> (7::int) < 2 ^ 24 \<and>
   0 < rows \<lparr>rows = 1, cols = 4\<rparr> \<and> rows \<lparr>rows = 1, cols = 4\<rparr> < 2 ^ 24 \<and>
   0 < cols \<lparr>rows = 1, cols = 4\<rparr> \<and> cols \<lparr>rows = 1, cols = 4\<rparr> < 2 ^ 24 \<and>
   scaling_ratio 100 7 \<lparr>rows = 1, cols = 4\<rparr> = min (fl (7 / 4)) (fl (100 / 1)) \<and>
   fst (display 100 7 \<lparr>rows = 1, cols = 4\<rparr> 110)
     = \<lparr>rows = \<lfloor>fl (scaling_ratio 100 7 \<lparr>rows = 1, cols = 4\<rparr> * 1)\<rfloor>,
        cols = \<lfloor>fl (scaling_ratio 100 7 \<lparr>rows = 1, cols = 4\<rparr> * 4)\<rfloor>\<rparr>"
  using scaler_truncates [of 100 7 "\<lparr>rows = 1, cols = 4\<rparr>" 110]
  by simp




end
